theory Spec2Isabelle
  imports Complex_Main "HOL-Library.Word"
begin

section \<open>Go strings and the library functions the service calls\<close>

text \<open>
  A Go string is modelled as the sequence of runes that ranging over it yields, each rune
  being its code point. \<open>strings.Fields\<close>, \<open>strings.TrimSpace\<close> and
  \<open>strings.ReplaceAll\<close> work rune by rune, and \<open>strings.Join\<close> concatenates.
\<close>

type_synonym rune = nat
type_synonym gostring = "rune list"

text \<open>
  \<open>unicode.IsSpace\<close>: in Latin-1 the runes \<open>\t \n \v \f \r\<close>, space, U+0085 and U+00A0;
  beyond Latin-1 the runes with the White_Space property.
\<close>

definition IsSpace :: "rune \<Rightarrow> bool" where
  "IsSpace r =
     (if r \<le> 255 then r \<in> {9, 10, 11, 12, 13, 32, 133, 160}
      else r = 5760 \<or> (8192 \<le> r \<and> r \<le> 8202) \<or> r \<in> {8232, 8233, 8239, 8287, 12288})"

text \<open>
  \<open>strings.Fields\<close> scans the string once; \<open>cur\<close> is the field being read, empty when
  the scan is between fields. A white-space rune closes the field being read, any other rune
  extends it, and the end of the string closes the last field.
\<close>

fun fields_scan :: "gostring \<Rightarrow> gostring \<Rightarrow> gostring list" where
  "fields_scan [] cur = (if cur = [] then [] else [cur])"
| "fields_scan (r # rs) cur =
     (if IsSpace r then (if cur = [] then fields_scan rs [] else cur # fields_scan rs [])
      else fields_scan rs (cur @ [r]))"

definition Fields :: "gostring \<Rightarrow> gostring list" where
  "Fields s = fields_scan s []"

text \<open>\<open>strings.Join(elems, sep)\<close>.\<close>

fun Join :: "gostring list \<Rightarrow> gostring \<Rightarrow> gostring" where
  "Join [] sep = []"
| "Join [x] sep = x"
| "Join (x # y # ys) sep = x @ sep @ Join (y # ys) sep"

text \<open>\<open>strings.TrimSpace\<close>: leading and trailing white space removed.\<close>

definition TrimSpace :: "gostring \<Rightarrow> gostring" where
  "TrimSpace s = rev (dropWhile IsSpace (rev (dropWhile IsSpace s)))"

text \<open>The slice expression \<open>xs[i:j]\<close> for \<open>0 \<le> i \<le> j \<le> len(xs)\<close>.\<close>

definition slice :: "'a list \<Rightarrow> nat \<Rightarrow> nat \<Rightarrow> 'a list" where
  "slice xs i j = take (j - i) (drop i xs)"

section \<open>The service: chunking\<close>

text \<open>
  Go's \<open>int\<close> is a 64-bit two's-complement integer on the platforms the server runs on;
  \<open>chunkSize - chunkOverlap\<close> wraps around. The indices of the loop stay below twice the
  number of words and are natural numbers here.
\<close>

type_synonym goint = "64 word"

record RAGService =
  ollamaURL :: gostring
  embeddingModel :: gostring
  llmModel :: gostring
  chunkSize :: goint
  chunkOverlap :: goint

text \<open>
  The loop of \<open>ChunkText\<close>, \<open>for i := 0; i < len(words); i += step\<close>, with the chunks
  appended so far. Nothing in the loop itself makes \<open>i\<close> grow, so the function is partial:
  \<open>None\<close> is a loop that never ends.
\<close>

partial_function (option) chunk_loop ::
  "gostring list \<Rightarrow> nat \<Rightarrow> nat \<Rightarrow> nat \<Rightarrow> gostring list \<Rightarrow> gostring list option" where
  "chunk_loop words csize step i chunks =
     (if i < length words then
        (let end' = (if i + csize > length words then length words else i + csize);
             chunk = Join (slice words i end') [32];
             chunks' = chunks @ [chunk]
         in if end' = length words then Some chunks'
            else chunk_loop words csize step (i + step) chunks')
      else Some chunks)"

declare chunk_loop.simps [code]

definition chunk_step :: "RAGService \<Rightarrow> goint" where
  "chunk_step s =
     (let step = chunkSize s - chunkOverlap s
      in if sint step \<le> 0 then chunkSize s else step)"

definition ChunkText :: "RAGService \<Rightarrow> gostring \<Rightarrow> gostring list option" where
  "ChunkText s text =
     (let words = Fields text
      in if sint (chunkSize s) \<le> 0 then Some [text]
         else chunk_loop words (nat (sint (chunkSize s))) (nat (sint (chunk_step s))) 0 [])"

section \<open>The service: embedding and indexing\<close>

text \<open>
  The HTTP client and the repository of the service are its environment. The environment
  answers the \<open>n\<close>-th POST to \<open>/api/embeddings\<close> and the \<open>n\<close>-th INSERT statement
  (numbered from 0), so that two calls with the same text may end differently.

  A response has a status code and a body. The JSON decoder of the library is not modelled:
  beside the body, a response carries what the two decodings of that body give, namely
  \<open>raw\<close> as \<open>dec.Decode(&raw)\<close> leaves it (\<open>None\<close> for the nil map of a body that is not
  a JSON object) and the outcome of \<open>dec.Decode(&result)\<close>: its error, or the
  \<open>Embedding\<close> field. A \<open>float32\<close> is a real number: the code never computes with it.
\<close>

type_synonym vector = "real list"
type_synonym json_object = "(gostring \<times> gostring) list"

record http_response =
  StatusCode :: int
  body :: gostring
  raw :: "json_object option"
  result :: "gostring + vector"

datatype http_outcome = PostFailed gostring | Responded http_response

record embed_request =
  model :: gostring
  prompt :: gostring

record row =
  Content :: gostring
  Source :: gostring
  Embedding :: vector

record env =
  post_embeddings :: "nat \<Rightarrow> embed_request \<Rightarrow> http_outcome"
  exec_insert :: "nat \<Rightarrow> row \<Rightarrow> gostring option"

text \<open>
  The world: the rows of table \<open>documents\<close> in insertion order (the \<open>id\<close> column is
  assigned by the database and not modelled), and how many embedding requests and INSERT
  statements have been sent.
\<close>

record world =
  documents :: "row list"
  embed_calls :: nat
  insert_calls :: nat

datatype embed_error =
    MarshalError gostring
  | CallError gostring
  | StatusError int "json_object option"
  | ParseError gostring
  | EmptyVector

text \<open>
  \<open>json.Marshal\<close> of the request map, whose values are strings and booleans: it returns
  no error. The encoded bytes are represented by the request itself.
\<close>

definition Marshal :: "'a \<Rightarrow> gostring + 'a" where
  "Marshal reqBody = Inr reqBody"

definition StatusOK :: int where
  "StatusOK = 200"

definition GenerateEmbedding ::
  "RAGService \<Rightarrow> env \<Rightarrow> world \<Rightarrow> gostring \<Rightarrow> (embed_error + vector) \<times> world" where
  "GenerateEmbedding s e w text =
     (case Marshal \<lparr>model = embeddingModel s, prompt = text\<rparr> of
        Inl err \<Rightarrow> (Inl (MarshalError err), w)
      | Inr jsonData \<Rightarrow>
          (let w' = w\<lparr>embed_calls := Suc (embed_calls w)\<rparr>
           in case post_embeddings e (embed_calls w) jsonData of
                PostFailed err \<Rightarrow> (Inl (CallError err), w')
              | Responded resp \<Rightarrow>
                  if StatusCode resp \<noteq> StatusOK
                  then (Inl (StatusError (StatusCode resp) (raw resp)), w')
                  else (case result resp of
                          Inl err \<Rightarrow> (Inl (ParseError err), w')
                        | Inr emb \<Rightarrow>
                            if length emb = 0 then (Inl EmptyVector, w')
                            else (Inr emb, w'))))"

text \<open>
  \<open>PostgresRepository.InsertChunk\<close>: one INSERT statement. The statement either fails and
  leaves the table as it was, or appends the row.
\<close>

datatype store_error = InsertError gostring

definition InsertChunk ::
  "env \<Rightarrow> world \<Rightarrow> gostring \<Rightarrow> gostring \<Rightarrow> vector \<Rightarrow> store_error option \<times> world" where
  "InsertChunk e w content source embedding =
     (let r = \<lparr>Content = content, Source = source, Embedding = embedding\<rparr>;
          w' = w\<lparr>insert_calls := Suc (insert_calls w)\<rparr>
      in case exec_insert e (insert_calls w) r of
           Some err \<Rightarrow> (Some (InsertError err), w')
         | None \<Rightarrow> (None, w'\<lparr>documents := documents w' @ [r]\<rparr>))"

text \<open>
  \<open>IndexDocument\<close>: \<open>for i, ch := range chunks\<close>. \<open>EmbeddingChunk i err\<close> is the error
  \<open>embedding chunk i: err\<close>, \<open>StoringChunk i err\<close> is \<open>storing chunk i: err\<close>.
\<close>

datatype index_error = EmbeddingChunk nat embed_error | StoringChunk nat store_error

fun index_loop ::
  "RAGService \<Rightarrow> env \<Rightarrow> gostring \<Rightarrow> nat \<Rightarrow> gostring list \<Rightarrow> world \<Rightarrow> index_error option \<times> world" where
  "index_loop s e source i [] w = (None, w)"
| "index_loop s e source i (ch # rest) w =
     (case GenerateEmbedding s e w ch of
        (Inl err, w1) \<Rightarrow> (Some (EmbeddingChunk i err), w1)
      | (Inr emb, w1) \<Rightarrow>
          (case InsertChunk e w1 ch source emb of
             (Some err, w2) \<Rightarrow> (Some (StoringChunk i err), w2)
           | (None, w2) \<Rightarrow> index_loop s e source (Suc i) rest w2))"


section \<open>The handlers\<close>

text \<open>An ASCII literal of the source as a Go string.\<close>

definition gostr :: "string \<Rightarrow> gostring" where
  "gostr cs = map of_char cs"

text \<open>
  \<open>strings.ToLower\<close> on the letters \<open>A\<close> to \<open>Z\<close>; no other rune has \<open>.\<close>, \<open>t\<close> or
  \<open>x\<close> as its lower case, and the handler only tests the suffix \<open>.txt\<close> of the result.
\<close>

definition ToLower :: "gostring \<Rightarrow> gostring" where
  "ToLower s = map (\<lambda>r. if 65 \<le> r \<and> r \<le> 90 then r + 32 else r) s"

definition HasSuffix :: "gostring \<Rightarrow> gostring \<Rightarrow> bool" where
  "HasSuffix s suffix =
     (length suffix \<le> length s \<and> drop (length s - length suffix) s = suffix)"

text \<open>\<open>strings.ReplaceAll(s, old, new)\<close> for a one-rune \<open>old\<close>, as at both call sites.\<close>

definition ReplaceAll :: "gostring \<Rightarrow> rune \<Rightarrow> gostring \<Rightarrow> gostring" where
  "ReplaceAll s old new = concat (map (\<lambda>r. if r = old then new else [r]) s)"

text \<open>\<open>url.Values.Get\<close>: the first value of the key, or the empty string.\<close>

definition Get :: "(gostring \<times> gostring) list \<Rightarrow> gostring \<Rightarrow> gostring" where
  "Get values key = (case map_of values key of Some v \<Rightarrow> v | None \<Rightarrow> [])"

text \<open>
  The request as the handlers read it: the method, the URL query, the error of
  \<open>ParseMultipartForm\<close>, \<open>FormValue\<close>, and \<open>FormFile\<close> (\<open>None\<close> when it returns an
  error) with the file's name and what \<open>io.ReadAll\<close> returns for it.
\<close>

record file_part =
  Filename :: gostring
  ReadAll :: "gostring + gostring"

record Request =
  Method :: gostring
  Query :: "(gostring \<times> gostring) list"
  ParseMultipartForm :: "gostring option"
  FormValue :: "gostring \<Rightarrow> gostring"
  FormFile :: "gostring \<Rightarrow> file_part option"

subsection \<open>Upload\<close>

text \<open>
  The replies of the upload handler: status 405 with no body; status 400 with the message
  \<open>error parsing form: err\<close>, \<open>solo se aceptan archivos .txt\<close>,
  \<open>error leyendo archivo: err\<close> or \<open>no se proporciono texto ni archivo\<close> (with its accent);
  status 500 with \<open>error indexando documento: err\<close>; status 200 with \<open>{"ok":true}\<close>.
\<close>

datatype problem = FormError gostring | NotTxt | ReadError gostring | NoTextNorFile

datatype 'e upload_reply =
    MethodNotAllowed
  | BadRequest problem
  | InternalServerError 'e
  | OkJSON

text \<open>
  The handler from \<open>text := r.FormValue("text")\<close> to the fallback on the text field: either
  an early reply, or the content and its source.
\<close>

definition upload_content :: "Request \<Rightarrow> problem + gostring \<times> gostring" where
  "upload_content r =
     (let text = FormValue r (gostr ''text'')
      in case (case FormFile r (gostr ''file'') of
                 Some file \<Rightarrow>
                   if \<not> HasSuffix (ToLower (Filename file)) (gostr ''.txt'') then Inl NotTxt
                   else (case ReadAll file of
                           Inl err \<Rightarrow> Inl (ReadError err)
                         | Inr b \<Rightarrow> Inr (b, Filename file))
               | None \<Rightarrow> Inr ([], [])) of
           Inl reply \<Rightarrow> Inl reply
         | Inr (content, source) \<Rightarrow>
             if content = [] then Inr (text, gostr ''user_text'') else Inr (content, source))"

text \<open>The end of the handler: the reply after \<open>indexFn\<close> has returned.\<close>

definition index_reply :: "('e option \<times> 'w) option \<Rightarrow> ('e upload_reply \<times> 'w) option" where
  "index_reply res =
     (case res of
        None \<Rightarrow> None
      | Some (Some err, w') \<Rightarrow> Some (InternalServerError err, w')
      | Some (None, w') \<Rightarrow> Some (OkJSON, w'))"

definition NewUploadHandler ::
  "(gostring \<Rightarrow> gostring \<Rightarrow> 'w \<Rightarrow> ('e option \<times> 'w) option) \<Rightarrow> Request \<Rightarrow> 'w
     \<Rightarrow> ('e upload_reply \<times> 'w) option" where
  "NewUploadHandler indexFn r w =
     (if Method r \<noteq> gostr ''POST'' then Some (MethodNotAllowed, w)
      else case ParseMultipartForm r of
             Some err \<Rightarrow> Some (BadRequest (FormError err), w)
           | None \<Rightarrow>
               (case upload_content r of
                  Inl reply \<Rightarrow> Some (BadRequest reply, w)
                | Inr (content, source) \<Rightarrow>
                    if TrimSpace content = [] then Some (BadRequest NoTextNorFile, w)
                    else index_reply (indexFn content source w)))"


subsection \<open>Query\<close>

text \<open>
  The generation backend: the request carries the model, the prompt and \<open>stream = true\<close>.
  The prompt is a fixed template around the retrieved contents, each tagged with its rank
  from 1, and the question; it is represented by these. The response body is what
  successive calls of \<open>dec.Decode(&chunk)\<close> return: a decoded value or an error, and
  \<open>io.EOF\<close> after the last one.
\<close>

type_synonym prompt = "(nat \<times> gostring) list \<times> gostring"

record generate_request =
  gen_model :: gostring
  gen_prompt :: prompt
  gen_stream :: bool

record chunk =
  Response :: gostring
  Done :: bool

datatype decoded = Decoded chunk | DecodeError gostring

datatype generate_outcome = GenerateFailed gostring | Body "decoded list"

text \<open>
  The events written to the client: \<open>Data t\<close> is \<open>data: t\<close>, \<open>DoneEvent\<close> is
  \<open>event: done\<close> with \<open>data: done\<close>, \<open>ErrorEvent m\<close> is \<open>event: error\<close> with
  \<open>data: m\<close>. Each is flushed as soon as it is written.
\<close>

datatype sse_event = Data gostring | DoneEvent | ErrorEvent gostring

fun stream_loop :: "decoded list \<Rightarrow> sse_event list" where
  "stream_loop [] = []"
| "stream_loop (DecodeError err # rest) = [ErrorEvent (ReplaceAll err 10 [32])]"
| "stream_loop (Decoded c # rest) =
     (if Response c \<noteq> [] then [Data (ReplaceAll (Response c) 10 [92, 110])] else [])
     @ (if Done c then [DoneEvent] else stream_loop rest)"

text \<open>
  The replies of the query handler: status 405; status 400 \<open>missing parameter 'q'\<close>;
  status 500 \<open>error looking for context: err\<close>; status 500 \<open>streaming not supported\<close>;
  status 502 \<open>error calling ollama: err\<close>; or the event stream.
\<close>

datatype 'e query_reply =
    QueryMethodNotAllowed
  | MissingQ
  | ContextError 'e
  | StreamingNotSupported
  | BadGateway gostring
  | EventStream "sse_event list"

definition NewQueryHandler ::
  "(gostring \<Rightarrow> goint \<Rightarrow> 'w \<Rightarrow> ('e + gostring list) \<times> 'w) \<Rightarrow> gostring
     \<Rightarrow> (generate_request \<Rightarrow> generate_outcome) \<Rightarrow> bool \<Rightarrow> Request \<Rightarrow> 'w
     \<Rightarrow> 'e query_reply \<times> 'w" where
  "NewQueryHandler searchFn llm post_generate flusher r w =
     (if Method r \<noteq> gostr ''GET'' then (QueryMethodNotAllowed, w)
      else let question = TrimSpace (Get (Query r) (gostr ''q''))
           in if question = [] then (MissingQ, w)
              else let topK = 50
                   in case searchFn question topK w of
                        (Inl err, w') \<Rightarrow> (ContextError err, w')
                      | (Inr docs, w') \<Rightarrow>
                          (let prompt = (zip [1..<Suc (length docs)] docs, question)
                           in if \<not> flusher then (StreamingNotSupported, w')
                              else let reqBody = \<lparr>gen_model = llm, gen_prompt = prompt,
                                                    gen_stream = True\<rparr>
                                   in case post_generate reqBody of
                                        GenerateFailed err \<Rightarrow> (BadGateway err, w')
                                      | Body items \<Rightarrow> (EventStream (stream_loop items), w')))"

section \<open>Notions used in the statements\<close>

text \<open>
  The result of \<open>GenerateEmbedding\<close> when its request is the \<open>n\<close>-th one sent to the
  embedding backend, and the chunk index that an indexing error names.
\<close>

definition embed_result :: "RAGService \<Rightarrow> env \<Rightarrow> nat \<Rightarrow> gostring \<Rightarrow> embed_error + vector" where
  "embed_result s e n text =
     fst (GenerateEmbedding s e \<lparr>documents = [], embed_calls = n, insert_calls = 0\<rparr> text)"


text \<open>
  For the event stream: the payloads of the data events, in order; the increments decoded
  before the first decoding error; the increments up to and including the first one whose
  completion flag is set; the generated text, which is the concatenation of their partial
  texts; terminal events; and the stream items at which the handler stops reading.
\<close>

fun tokens :: "sse_event list \<Rightarrow> gostring list" where
  "tokens [] = []"
| "tokens (Data t # evs) = t # tokens evs"
| "tokens (DoneEvent # evs) = tokens evs"
| "tokens (ErrorEvent m # evs) = tokens evs"

fun increments :: "decoded list \<Rightarrow> chunk list" where
  "increments [] = []"
| "increments (DecodeError err # rest) = []"
| "increments (Decoded c # rest) = c # increments rest"

definition up_to_done :: "chunk list \<Rightarrow> chunk list" where
  "up_to_done cs = takeWhile (\<lambda>c. \<not> Done c) cs @ take 1 (dropWhile (\<lambda>c. \<not> Done c) cs)"

definition generated_text :: "decoded list \<Rightarrow> gostring" where
  "generated_text items = concat (map Response (up_to_done (increments items)))"

fun is_terminal :: "sse_event \<Rightarrow> bool" where
  "is_terminal (Data t) = False"
| "is_terminal DoneEvent = True"
| "is_terminal (ErrorEvent m) = True"

definition ends_in_terminal :: "sse_event list \<Rightarrow> bool" where
  "ends_in_terminal evs = (evs \<noteq> [] \<and> is_terminal (last evs))"

fun stops :: "decoded \<Rightarrow> bool" where
  "stops (DecodeError err) = True"
| "stops (Decoded c) = Done c"

section \<open>Example inputs\<close>

text \<open>
  The service of the indexing scenario (size 4, overlap 2) with its text, a service whose
  chunk size is 0, and a service whose overlap exceeds its size.
\<close>

definition sky_service :: RAGService where
  "sky_service = \<lparr>ollamaURL = [], embeddingModel = [], llmModel = [], chunkSize = 4, chunkOverlap = 2\<rparr>"

definition sky_text :: gostring where
  "sky_text = gostr ''the sky is blue the grass is green''"


definition capped_service :: RAGService where
  "capped_service = \<lparr>ollamaURL = [], embeddingModel = [], llmModel = [], chunkSize = 2, chunkOverlap = 5\<rparr>"

text \<open>
  Responses of the embedding backend: an error of the backend, whose body is the JSON object
  \<open>{"error":"model not found"}\<close>; a successful one; two errors of a proxy, whose bodies
  \<open>oops\<close> and \<open>bad gateway\<close> are not JSON; and a response with status 201 and a vector.
\<close>

definition quoted :: "gostring \<Rightarrow> gostring" where
  "quoted s = [34] @ s @ [34]"

definition server_error :: http_response where
  "server_error =
     \<lparr>StatusCode = 500,
      body = gostr ''{'' @ quoted (gostr ''error'') @ gostr '':''
             @ quoted (gostr ''model not found'') @ gostr ''}'',
      raw = Some [(gostr ''error'', gostr ''model not found'')],
      result = Inr []\<rparr>"

definition ok_response :: http_response where
  "ok_response =
     \<lparr>StatusCode = 200,
      body = gostr ''{'' @ quoted (gostr ''embedding'') @ gostr '':[1,0]}'',
      raw = Some [(gostr ''embedding'', gostr ''[1,0]'')],
      result = Inr [1, 0]\<rparr>"

definition oops_response :: http_response where
  "oops_response =
     \<lparr>StatusCode = 500, body = gostr ''oops'', raw = None,
      result = Inl (gostr ''invalid character'')\<rparr>"

definition gateway_response :: http_response where
  "gateway_response =
     \<lparr>StatusCode = 500, body = gostr ''bad gateway'', raw = None,
      result = Inl (gostr ''invalid character'')\<rparr>"

definition created_response :: http_response where
  "created_response = ok_response\<lparr>StatusCode := 201\<rparr>"

text \<open>
  An environment whose embedding backend gives one response to every request; an environment
  whose embedding backend answers its second request with \<open>server_error\<close> and every other
  request with \<open>ok_response\<close>; in both, every INSERT statement succeeds. And the world
  before anything was indexed.
\<close>

definition backend :: "http_response \<Rightarrow> env" where
  "backend resp = \<lparr>post_embeddings = (\<lambda>n req. Responded resp), exec_insert = (\<lambda>n r. None)\<rparr>"

definition flaky_env :: env where
  "flaky_env =
     \<lparr>post_embeddings = (\<lambda>n req. if n = 1 then Responded server_error else Responded ok_response),
      exec_insert = (\<lambda>n r. None)\<rparr>"

definition empty_world :: world where
  "empty_world = \<lparr>documents = [], embed_calls = 0, insert_calls = 0\<rparr>"

text \<open>
  An \<open>indexFn\<close> that records the content and source it is called with, and three upload
  requests: one whose text field is white space, one with a text field and a file that holds
  a single space, and one with a text field and a file that holds text.
\<close>

definition record_index ::
  "gostring \<Rightarrow> gostring \<Rightarrow> (gostring \<times> gostring) list
     \<Rightarrow> (index_error option \<times> (gostring \<times> gostring) list) option" where
  "record_index content source calls = Some (None, calls @ [(content, source)])"


definition blank_file_request :: Request where
  "blank_file_request =
     \<lparr>Method = gostr ''POST'', Query = [], ParseMultipartForm = None,
      FormValue = (\<lambda>key. if key = gostr ''text'' then gostr ''hello'' else []),
      FormFile = (\<lambda>key. if key = gostr ''file''
                         then Some \<lparr>Filename = gostr ''notes.txt'', ReadAll = Inr [32]\<rparr>
                         else None)\<rparr>"

definition file_and_text_request :: Request where
  "file_and_text_request =
     \<lparr>Method = gostr ''POST'', Query = [], ParseMultipartForm = None,
      FormValue = (\<lambda>key. if key = gostr ''text'' then gostr ''hello'' else []),
      FormFile = (\<lambda>key. if key = gostr ''file''
                         then Some \<lparr>Filename = gostr ''Notes.TXT'', ReadAll = Inr (gostr ''from the file'')\<rparr>
                         else None)\<rparr>"

text \<open>
  A \<open>searchFn\<close> that records the \<open>topK\<close> it is called with and finds nothing; a query with
  \<open>k=3\<close>; and response bodies of the generation backend: the three tokens of the streaming
  scenario followed by a completion increment, one increment holding a newline, a body that
  ends without a completion increment, and a body that is malformed after its first
  increment.
\<close>

definition record_search ::
  "gostring \<Rightarrow> goint \<Rightarrow> goint list \<Rightarrow> (gostring + gostring list) \<times> goint list" where
  "record_search question topK calls = (Inr [], calls @ [topK])"

definition k_request :: Request where
  "k_request =
     \<lparr>Method = gostr ''GET'', Query = [(gostr ''q'', gostr ''who made Go''), (gostr ''k'', gostr ''3'')],
      ParseMultipartForm = None, FormValue = (\<lambda>key. []), FormFile = (\<lambda>key. None)\<rparr>"

definition go_stream :: "decoded list" where
  "go_stream =
     [Decoded \<lparr>Response = gostr ''Go'', Done = False\<rparr>,
      Decoded \<lparr>Response = gostr '' was'', Done = False\<rparr>,
      Decoded \<lparr>Response = gostr '' created'', Done = False\<rparr>,
      Decoded \<lparr>Response = [], Done = True\<rparr>]"

definition newline_stream :: "decoded list" where
  "newline_stream = [Decoded \<lparr>Response = [97, 10, 98], Done = True\<rparr>]"

definition open_stream :: "decoded list" where
  "open_stream = [Decoded \<lparr>Response = gostr ''Go'', Done = False\<rparr>]"

definition broken_stream :: "decoded list" where
  "broken_stream = [Decoded \<lparr>Response = gostr ''Go'', Done = False\<rparr>, DecodeError [98, 97, 100, 10, 120]]"

section \<open>Chunking: properties\<close>

lemma fields_scan_tokens:
  "\<forall>r\<in>set cur. \<not> IsSpace r \<Longrightarrow> t \<in> set (fields_scan s cur) \<Longrightarrow> t \<noteq> [] \<and> (\<forall>r\<in>set t. \<not> IsSpace r)"
proof (induction s cur rule: fields_scan.induct)
  case (1 cur)
  then show ?case by (cases "cur = []") simp_all
next
  case (2 r rs cur)
  have empty: "\<forall>r'\<in>set ([]::gostring). \<not> IsSpace r'" by simp
  show ?case
  proof (cases "IsSpace r")
    case space: True
    show ?thesis
    proof (cases "cur = []")
      case True
      from "2.prems"(2) space True have "t \<in> set (fields_scan rs [])" by simp
      with "2.IH"(1) [OF space True empty] show ?thesis .
    next
      case False
      from "2.prems"(2) space False have "t = cur \<or> t \<in> set (fields_scan rs [])" by simp
      then show ?thesis
      proof
        assume "t = cur"
        with False "2.prems"(1) show ?thesis by simp
      next
        assume "t \<in> set (fields_scan rs [])"
        with "2.IH"(2) [OF space False empty] show ?thesis .
      qed
    qed
  next
    case False
    from "2.prems"(1) False have "\<forall>r'\<in>set (cur @ [r]). \<not> IsSpace r'" by simp
    moreover from "2.prems"(2) False have "t \<in> set (fields_scan rs (cur @ [r]))" by simp
    ultimately show ?thesis by (rule "2.IH"(3) [OF False])
  qed
qed


lemma Fields_tokens:
  "t \<in> set (Fields s) \<Longrightarrow> t \<noteq> [] \<and> (\<forall>r\<in>set t. \<not> IsSpace r)"
proof -
  assume "t \<in> set (Fields s)"
  then have "t \<in> set (fields_scan s [])" by (simp only: Fields_def)
  moreover have "\<forall>r\<in>set ([]::gostring). \<not> IsSpace r" by simp
  ultimately show ?thesis by (rule fields_scan_tokens [rotated])
qed

lemma fields_scan_append:
  "\<forall>r\<in>set t. \<not> IsSpace r \<Longrightarrow> fields_scan (t @ rest) cur = fields_scan rest (cur @ t)"
proof (induction t arbitrary: cur)
  case Nil
  show ?case by simp
next
  case (Cons a t)
  from Cons.prems have a: "\<not> IsSpace a" and t: "\<forall>r\<in>set t. \<not> IsSpace r" by simp_all
  have "fields_scan ((a # t) @ rest) cur = fields_scan (t @ rest) (cur @ [a])"
    using a by simp
  also have "\<dots> = fields_scan rest ((cur @ [a]) @ t)"
    using t by (rule Cons.IH)
  finally show ?case by simp
qed

lemma IsSpace_32: "IsSpace 32"
  by (simp add: IsSpace_def)

lemma fields_scan_Join:
  "\<forall>t\<in>set ts. t \<noteq> [] \<and> (\<forall>r\<in>set t. \<not> IsSpace r) \<Longrightarrow> fields_scan (Join ts [32]) [] = ts"
proof (induction ts "[32::nat]" rule: Join.induct)
  case 1
  show ?case by simp
next
  case (2 x)
  then have x: "\<forall>r\<in>set x. \<not> IsSpace r" and ne: "x \<noteq> []" by simp_all
  have "fields_scan (x @ []) [] = fields_scan [] ([] @ x)"
    using x by (rule fields_scan_append)
  then show ?case using ne by simp
next
  case (3 x y ys)
  from "3.prems" have x: "\<forall>r\<in>set x. \<not> IsSpace r" and ne: "x \<noteq> []"
    and rest: "\<forall>t\<in>set (y # ys). t \<noteq> [] \<and> (\<forall>r\<in>set t. \<not> IsSpace r)" by simp_all
  have "fields_scan (x @ (32 # Join (y # ys) [32])) [] = fields_scan (32 # Join (y # ys) [32]) ([] @ x)"
    using x by (rule fields_scan_append)
  also have "\<dots> = x # fields_scan (Join (y # ys) [32]) []"
    using ne by (simp add: IsSpace_32)
  also have "fields_scan (Join (y # ys) [32]) [] = y # ys"
    using rest by (rule "3.hyps")
  finally show ?case by simp
qed

lemma Fields_Join_window:
  "Fields (Join (take n (drop i (Fields text))) [32]) = take n (drop i (Fields text))"
proof -
  have "set (take n (drop i (Fields text))) \<subseteq> set (Fields text)"
    using set_take_subset set_drop_subset by (rule subset_trans)
  then have "\<forall>t\<in>set (take n (drop i (Fields text))). t \<noteq> [] \<and> (\<forall>r\<in>set t. \<not> IsSpace r)"
    using Fields_tokens by blast
  then have "fields_scan (Join (take n (drop i (Fields text))) [32]) [] = take n (drop i (Fields text))"
    by (rule fields_scan_Join)
  then show ?thesis by (simp only: Fields_def)
qed


lemma sint_diff_no_wrap:
  fixes a b :: goint
  assumes "- (2 ^ 63) \<le> sint a - sint b" and "sint a - sint b < 2 ^ 63"
  shows "sint (a - b) = sint a - sint b"
proof -
  have "sint (a - b) = signed_take_bit 63 (sint a - sint b)"
    by (simp add: sint_word_diff)
  also have "\<dots> = sint a - sint b"
    using assms by (rule signed_take_bit_int_eq_self)
  finally show ?thesis .
qed

lemma sint_goint_bounds:
  fixes a :: goint
  shows "- (2 ^ 63) \<le> sint a" and "sint a < 2 ^ 63"
  using sint_ge [of a] sint_lt [of a] by simp_all

lemma chunk_step_pos: "0 < sint (chunkSize s) \<Longrightarrow> 0 < sint (chunk_step s)"
  by (simp add: chunk_step_def Let_def)

lemma chunk_step_overlap:
  assumes "0 \<le> sint (chunkOverlap s)" and "sint (chunkOverlap s) < sint (chunkSize s)"
  shows "sint (chunk_step s) = sint (chunkSize s) - sint (chunkOverlap s)"
proof -
  have "sint (chunkSize s) < 2 ^ 63" by (rule sint_goint_bounds)
  with assms have "sint (chunkSize s - chunkOverlap s) = sint (chunkSize s) - sint (chunkOverlap s)"
    by (intro sint_diff_no_wrap) linarith+
  with assms show ?thesis by (simp add: chunk_step_def Let_def)
qed

lemma chunk_step_capped:
  assumes "0 < sint (chunkSize s)" and "sint (chunkSize s) \<le> sint (chunkOverlap s)"
  shows "chunk_step s = chunkSize s"
proof -
  have "sint (chunkOverlap s) < 2 ^ 63" by (rule sint_goint_bounds)
  with assms have "sint (chunkSize s - chunkOverlap s) = sint (chunkSize s) - sint (chunkOverlap s)"
    by (intro sint_diff_no_wrap) linarith+
  with assms show ?thesis by (simp add: chunk_step_def Let_def)
qed

lemma chunk_loop_terminates:
  "0 < step \<Longrightarrow> \<exists>r. chunk_loop words csize step i chunks = Some r"
proof (induction "length words - i" arbitrary: i chunks rule: less_induct)
  case less
  show ?case
  proof (cases "i < length words")
    case False
    then show ?thesis by (subst chunk_loop.simps) simp
  next
    case True
    then have "length words - (i + step) < length words - i"
      using less.prems by arith
    from less.hyps [OF this less.prems]
    show ?thesis by (subst chunk_loop.simps) (simp add: Let_def)
  qed
qed

lemma map_upt_shift:
  "map f [0..<Suc n] = f 0 # map (\<lambda>k. f (Suc k)) [0..<n]"
  by (simp only: upt_conv_Cons [of 0 "Suc n"] zero_less_Suc if_True list.map map_Suc_upt [symmetric] map_map o_def)

lemma chunk_loop_windows:
  assumes "0 < step" and "step \<le> csize"
  shows "\<exists>n. chunk_loop words csize step i chunks =
              Some (chunks @ map (\<lambda>k. Join (take csize (drop (i + k * step) words)) [32]) [0..<n])
           \<and> (if i < length words
              then 0 < n \<and> i + (n - 1) * step < length words \<and> length words \<le> i + (n - 1) * step + csize
              else n = 0)"
proof (induction "length words - i" arbitrary: i chunks rule: less_induct)
  case less
  let ?w = "\<lambda>i k. Join (take csize (drop (i + k * step) words)) [32]"
  show ?case
  proof (cases "i < length words")
    case False
    then have "chunk_loop words csize step i chunks = Some chunks"
      by (subst chunk_loop.simps) simp
    with False show ?thesis by (intro exI [of _ 0]) simp
  next
    case True
    show ?thesis
    proof (cases "i + csize \<ge> length words")
      case fits: True
      have "chunk_loop words csize step i chunks = Some (chunks @ [?w i 0])"
        using True fits by (subst chunk_loop.simps) (auto simp: Let_def slice_def)
      with True fits show ?thesis by (intro exI [of _ 1]) simp
    next
      case more: False
      have step: "chunk_loop words csize step i chunks =
                  chunk_loop words csize step (i + step) (chunks @ [?w i 0])"
        using True more by (subst chunk_loop.simps) (auto simp: Let_def slice_def)
      have next_in: "i + step < length words"
        using more assms by arith
      have "length words - (i + step) < length words - i"
        using True assms by arith
      from less.hyps [OF this, of "chunks @ [?w i 0]"] next_in
      obtain n where n: "chunk_loop words csize step (i + step) (chunks @ [?w i 0]) =
            Some ((chunks @ [?w i 0]) @ map (?w (i + step)) [0..<n])"
        and pos: "0 < n" and lo: "i + step + (n - 1) * step < length words"
        and hi: "length words \<le> i + step + (n - 1) * step + csize"
        by auto
      have "map (?w i) [0..<Suc n] = ?w i 0 # map (?w (i + step)) [0..<n]"
        by (simp only: map_upt_shift) (simp add: add.assoc add.commute)
      then have "chunk_loop words csize step i chunks = Some (chunks @ map (?w i) [0..<Suc n])"
        using step n by simp
      moreover have "i + (Suc n - 1) * step = i + step + (n - 1) * step"
        using pos by (cases n) simp_all
      ultimately show ?thesis
        using True lo hi by (intro exI [of _ "Suc n"]) simp
    qed
  qed
qed


lemma chunk_loop_from_start:
  assumes "0 < step" and "step \<le> csize"
  shows "\<exists>n. chunk_loop words csize step 0 [] =
              Some (map (\<lambda>k. Join (take csize (drop (k * step) words)) [32]) [0..<n])
           \<and> (if words \<noteq> []
              then 0 < n \<and> (n - 1) * step < length words \<and> length words \<le> (n - 1) * step + csize
              else n = 0)"
proof -
  from chunk_loop_windows [OF assms, of words 0 "[]"]
  obtain n where run: "chunk_loop words csize step 0 [] =
        Some ([] @ map (\<lambda>k. Join (take csize (drop (0 + k * step) words)) [32]) [0..<n])"
    and shape: "if 0 < length words
         then 0 < n \<and> 0 + (n - 1) * step < length words \<and> length words \<le> 0 + (n - 1) * step + csize
         else n = 0"
    by blast
  from run have "chunk_loop words csize step 0 [] =
        Some (map (\<lambda>k. Join (take csize (drop (k * step) words)) [32]) [0..<n])"
    by simp
  moreover from shape have "if words \<noteq> []
         then 0 < n \<and> (n - 1) * step < length words \<and> length words \<le> (n - 1) * step + csize
         else n = 0"
    by (simp split: if_splits)
  ultimately show ?thesis by blast
qed

lemma ChunkText_cong:
  "chunkSize s' = chunkSize s \<Longrightarrow> chunkOverlap s' = chunkOverlap s
   \<Longrightarrow> ChunkText s' text = ChunkText s text"
  by (simp add: ChunkText_def chunk_step_def Let_def)

lemma ChunkText_form:
  assumes "0 < sint (chunkSize s)" and "sint (chunk_step s) \<le> sint (chunkSize s)"
  shows "\<exists>n. ChunkText s text =
              Some (map (\<lambda>k. Join (take (nat (sint (chunkSize s)))
                                   (drop (k * nat (sint (chunk_step s))) (Fields text))) [32]) [0..<n])
           \<and> (if Fields text \<noteq> []
              then 0 < n \<and> (n - 1) * nat (sint (chunk_step s)) < length (Fields text)
                   \<and> length (Fields text) \<le> (n - 1) * nat (sint (chunk_step s)) + nat (sint (chunkSize s))
              else n = 0)"
proof -
  have pos: "0 < nat (sint (chunk_step s))"
    using chunk_step_pos [OF assms(1)] by simp
  have le: "nat (sint (chunk_step s)) \<le> nat (sint (chunkSize s))"
    using assms(2) by simp
  have unfold: "ChunkText s text =
      chunk_loop (Fields text) (nat (sint (chunkSize s))) (nat (sint (chunk_step s))) 0 []"
    using assms(1) by (simp add: ChunkText_def Let_def)
  show ?thesis unfolding unfold using pos le by (rule chunk_loop_from_start)
qed



text \<open>
  C2. With \<open>size > 0\<close> and \<open>0 \<le> overlap < size\<close>, \<open>ChunkText\<close> returns chunks of which the
  \<open>k\<close>-th is the space-joined window of \<open>size\<close> words that starts at word
  \<open>k * (size - overlap)\<close>, so that successive chunks start \<open>size - overlap\<close> words apart;
  splitting a chunk gives these words back, at most \<open>size\<close> of them; when the text has a
  word, the last chunk holds the words from its start up to the end of the word sequence;
  and the result depends on the text, the size and the overlap only. This holds for the
  empty text too.
\<close>

theorem ChunkText_windows:
  assumes "0 < sint (chunkSize s)"
    and "0 \<le> sint (chunkOverlap s)"
    and "sint (chunkOverlap s) < sint (chunkSize s)"
  shows "\<exists>chunks. ChunkText s text = Some chunks
    \<and> (\<forall>k<length chunks.
          chunks ! k = Join (take (nat (sint (chunkSize s)))
                              (drop (k * nat (sint (chunkSize s) - sint (chunkOverlap s))) (Fields text))) [32]
        \<and> Fields (chunks ! k) = take (nat (sint (chunkSize s)))
                              (drop (k * nat (sint (chunkSize s) - sint (chunkOverlap s))) (Fields text))
        \<and> length (Fields (chunks ! k)) \<le> nat (sint (chunkSize s)))
    \<and> (Fields text \<noteq> [] \<longrightarrow>
          chunks \<noteq> []
        \<and> (length chunks - 1) * nat (sint (chunkSize s) - sint (chunkOverlap s)) < length (Fields text)
        \<and> Fields (last chunks) =
            drop ((length chunks - 1) * nat (sint (chunkSize s) - sint (chunkOverlap s))) (Fields text))
    \<and> (Fields text = [] \<longrightarrow> chunks = [])
    \<and> (\<forall>s'. chunkSize s' = chunkSize s \<and> chunkOverlap s' = chunkOverlap s
            \<longrightarrow> ChunkText s' text = Some chunks)"
proof -
  let ?csize = "nat (sint (chunkSize s))"
  let ?step = "nat (sint (chunkSize s) - sint (chunkOverlap s))"
  let ?ws = "Fields text"
  let ?win = "\<lambda>k. Join (take ?csize (drop (k * ?step) ?ws)) [32]"
  have st: "sint (chunk_step s) = sint (chunkSize s) - sint (chunkOverlap s)"
    using assms(2,3) by (rule chunk_step_overlap)
  then have "sint (chunk_step s) \<le> sint (chunkSize s)"
    using assms(2) by simp
  from ChunkText_form [OF assms(1) this, of "text"]
  obtain n where run: "ChunkText s text = Some (map ?win [0..<n])"
    and shape: "if ?ws \<noteq> [] then 0 < n \<and> (n - 1) * ?step < length ?ws \<and> length ?ws \<le> (n - 1) * ?step + ?csize
                else n = 0"
    unfolding st by blast
  have tokens: "Fields (?win k) = take ?csize (drop (k * ?step) ?ws)" for k
    by (rule Fields_Join_window)
  have each: "\<forall>k<length (map ?win [0..<n]).
        map ?win [0..<n] ! k = ?win k
      \<and> Fields (map ?win [0..<n] ! k) = take ?csize (drop (k * ?step) ?ws)
      \<and> length (Fields (map ?win [0..<n] ! k)) \<le> ?csize"
  proof (intro allI impI)
    fix k assume "k < length (map ?win [0..<n])"
    then have "map ?win [0..<n] ! k = ?win k" by simp
    moreover have "length (take ?csize (drop (k * ?step) ?ws)) \<le> ?csize" by simp
    ultimately show "map ?win [0..<n] ! k = ?win k
      \<and> Fields (map ?win [0..<n] ! k) = take ?csize (drop (k * ?step) ?ws)
      \<and> length (Fields (map ?win [0..<n] ! k)) \<le> ?csize"
      by (simp only: tokens)
  qed
  have last: "?ws \<noteq> [] \<longrightarrow> map ?win [0..<n] \<noteq> [] \<and> (length (map ?win [0..<n]) - 1) * ?step < length ?ws
      \<and> Fields (last (map ?win [0..<n])) = drop ((length (map ?win [0..<n]) - 1) * ?step) ?ws"
  proof
    assume "?ws \<noteq> []"
    with shape have n: "0 < n" and lo: "(n - 1) * ?step < length ?ws"
      and hi: "length ?ws \<le> (n - 1) * ?step + ?csize" by simp_all
    from n have "last (map ?win [0..<n]) = ?win (n - 1)"
      by (cases n) (simp_all add: last_map)
    then have "Fields (last (map ?win [0..<n])) = take ?csize (drop ((n - 1) * ?step) ?ws)"
      by (simp only: tokens)
    also have "\<dots> = drop ((n - 1) * ?step) ?ws"
      using hi by simp
    finally have "Fields (last (map ?win [0..<n])) = drop ((n - 1) * ?step) ?ws" .
    moreover have "length (map ?win [0..<n]) = n" by simp
    moreover have "map ?win [0..<n] \<noteq> []" using n by simp
    ultimately show "map ?win [0..<n] \<noteq> [] \<and> (length (map ?win [0..<n]) - 1) * ?step < length ?ws
      \<and> Fields (last (map ?win [0..<n])) = drop ((length (map ?win [0..<n]) - 1) * ?step) ?ws"
      using lo by (simp only:) simp
  qed
  have none: "?ws = [] \<longrightarrow> map ?win [0..<n] = []"
    using shape by (simp split: if_splits)
  have same: "\<forall>s'. chunkSize s' = chunkSize s \<and> chunkOverlap s' = chunkOverlap s
      \<longrightarrow> ChunkText s' text = Some (map ?win [0..<n])"
  proof (intro allI impI)
    fix s' :: RAGService assume "chunkSize s' = chunkSize s \<and> chunkOverlap s' = chunkOverlap s"
    then have "ChunkText s' text = ChunkText s text"
      by (intro ChunkText_cong) simp_all
    with run show "ChunkText s' text = Some (map ?win [0..<n])"
      by (simp only:)
  qed
  show ?thesis
    by (rule exI [of _ "map ?win [0..<n]"], intro conjI) (rule run each last none same)+
qed



theorem ChunkText_windows_witness:
  "0 < sint (chunkSize sky_service) \<and> 0 \<le> sint (chunkOverlap sky_service)
   \<and> sint (chunkOverlap sky_service) < sint (chunkSize sky_service)
   \<and> (\<exists>chunks. ChunkText sky_service sky_text = Some chunks
        \<and> (\<forall>k<length chunks. length (Fields (chunks ! k)) \<le> nat (sint (chunkSize sky_service)))
        \<and> (Fields sky_text = [] \<longrightarrow> chunks = []))"
proof -
  have h1: "0 < sint (chunkSize sky_service)" by (simp add: sky_service_def)
  have h2: "0 \<le> sint (chunkOverlap sky_service)" by (simp add: sky_service_def)
  have h3: "sint (chunkOverlap sky_service) < sint (chunkSize sky_service)"
    by (simp add: sky_service_def)
  from ChunkText_windows [OF h1 h2 h3, of sky_text]
  obtain chunks where run: "ChunkText sky_service sky_text = Some chunks"
    and each: "\<forall>k<length chunks.
          chunks ! k = Join (take (nat (sint (chunkSize sky_service)))
                (drop (k * nat (sint (chunkSize sky_service) - sint (chunkOverlap sky_service)))
                   (Fields sky_text))) [32]
        \<and> Fields (chunks ! k) = take (nat (sint (chunkSize sky_service)))
                (drop (k * nat (sint (chunkSize sky_service) - sint (chunkOverlap sky_service)))
                   (Fields sky_text))
        \<and> length (Fields (chunks ! k)) \<le> nat (sint (chunkSize sky_service))"
    and none: "Fields sky_text = [] \<longrightarrow> chunks = []"
    by (elim exE conjE)
  from each have "\<forall>k<length chunks. length (Fields (chunks ! k)) \<le> nat (sint (chunkSize sky_service))"
    by (intro allI impI) (elim allE impE, assumption, elim conjE)
  with run none h1 h2 h3 show ?thesis by (intro conjI exI [of _ chunks])
qed

text \<open>
  C7. \<open>ChunkText\<close> returns for every text, size and overlap; and when \<open>size > 0\<close> and
  \<open>overlap \<ge> size\<close>, the step is the size: the \<open>k\<close>-th chunk is the window that starts at
  word \<open>k * size\<close>.
\<close>

theorem ChunkText_terminates:
  "(\<exists>chunks. ChunkText s text = Some chunks)
   \<and> (0 < sint (chunkSize s) \<and> sint (chunkSize s) \<le> sint (chunkOverlap s) \<longrightarrow>
        chunk_step s = chunkSize s
      \<and> (\<exists>chunks. ChunkText s text = Some chunks
           \<and> (\<forall>k<length chunks.
                 chunks ! k = Join (take (nat (sint (chunkSize s)))
                                     (drop (k * nat (sint (chunkSize s))) (Fields text))) [32])))"
proof (intro conjI impI)
  show "\<exists>chunks. ChunkText s text = Some chunks"
  proof (cases "sint (chunkSize s) \<le> 0")
    case True
    then show ?thesis by (simp add: ChunkText_def)
  next
    case False
    then have "0 < nat (sint (chunk_step s))"
      using chunk_step_pos [of s] by simp
    then have "\<exists>r. chunk_loop (Fields text) (nat (sint (chunkSize s))) (nat (sint (chunk_step s))) 0 [] = Some r"
      by (rule chunk_loop_terminates)
    with False show ?thesis by (simp add: ChunkText_def Let_def)
  qed
next
  assume h: "0 < sint (chunkSize s) \<and> sint (chunkSize s) \<le> sint (chunkOverlap s)"
  then show "chunk_step s = chunkSize s" by (intro chunk_step_capped) simp_all
next
  assume h: "0 < sint (chunkSize s) \<and> sint (chunkSize s) \<le> sint (chunkOverlap s)"
  let ?win = "\<lambda>k. Join (take (nat (sint (chunkSize s))) (drop (k * nat (sint (chunkSize s))) (Fields text))) [32]"
  from h have st: "chunk_step s = chunkSize s" by (intro chunk_step_capped) simp_all
  from h have pos: "0 < sint (chunkSize s)" by simp
  have "sint (chunk_step s) \<le> sint (chunkSize s)" by (simp only: st)
  from ChunkText_form [OF pos this, of "text"]
  obtain n where run: "ChunkText s text = Some (map ?win [0..<n])"
    unfolding st by blast
  have "\<forall>k<length (map ?win [0..<n]). map ?win [0..<n] ! k = ?win k"
    by simp
  with run show "\<exists>chunks. ChunkText s text = Some chunks \<and> (\<forall>k<length chunks. chunks ! k = ?win k)"
    by (intro exI [of _ "map ?win [0..<n]"] conjI)
qed

theorem ChunkText_terminates_witness:
  "0 < sint (chunkSize capped_service) \<and> sint (chunkSize capped_service) \<le> sint (chunkOverlap capped_service)
   \<and> chunk_step capped_service = chunkSize capped_service
   \<and> (\<exists>chunks. ChunkText capped_service sky_text = Some chunks)"
proof -
  have h: "0 < sint (chunkSize capped_service) \<and> sint (chunkSize capped_service) \<le> sint (chunkOverlap capped_service)"
    by (simp add: capped_service_def)
  note t = ChunkText_terminates [of capped_service sky_text]
  have all: "\<exists>chunks. ChunkText capped_service sky_text = Some chunks"
    by (rule conjunct1 [OF t])
  have capped: "chunk_step capped_service = chunkSize capped_service"
    by (rule conjunct1 [OF mp [OF conjunct2 [OF t] h]])
  from h all capped show ?thesis by blast
qed

lemma ChunkText_capped:
  "ChunkText capped_service sky_text =
     Some [gostr ''the sky'', gostr ''is blue'', gostr ''the grass'', gostr ''is green'']"
  by code_simp

section \<open>Embedding and indexing: properties\<close>

lemma GenerateEmbedding_world:
  "snd (GenerateEmbedding s e w text) = w\<lparr>embed_calls := Suc (embed_calls w)\<rparr>"
  by (simp add: GenerateEmbedding_def Marshal_def Let_def split: http_outcome.split sum.split)

lemma GenerateEmbedding_result:
  "fst (GenerateEmbedding s e w text) = embed_result s e (embed_calls w) text"
  by (simp add: embed_result_def GenerateEmbedding_def Marshal_def Let_def
           split: http_outcome.split sum.split)

text \<open>
  C9, as stated, fails. A response with status 201 whose body holds the vector \<open>[1, 0]\<close> is
  answered with an error, not with the vector. And two responses with status 500 whose
  bodies, \<open>oops\<close> and \<open>bad gateway\<close>, are not JSON give one and the same error, which holds the
  status and nothing of either body.
\<close>

theorem GenerateEmbedding_status_counterexample:
  "StatusCode created_response = 201 \<and> result created_response = Inr [1, 0]
   \<and> fst (GenerateEmbedding sky_service (backend created_response) empty_world sky_text)
       = Inl (StatusError 201 (Some [(gostr ''embedding'', gostr ''[1,0]'')]))
   \<and> body oops_response \<noteq> body gateway_response
   \<and> fst (GenerateEmbedding sky_service (backend oops_response) empty_world sky_text)
       = Inl (StatusError 500 None)
   \<and> fst (GenerateEmbedding sky_service (backend gateway_response) empty_world sky_text)
       = Inl (StatusError 500 None)"
  by (simp add: GenerateEmbedding_def Marshal_def Let_def StatusOK_def backend_def empty_world_def
                created_response_def ok_response_def oops_response_def gateway_response_def
                gostr_def)

text \<open>
  C9, amended. \<open>GenerateEmbedding\<close> returns an error exactly when the POST fails, or the
  response has a status other than 200, or its body does not decode into the expected shape,
  or the decoded vector is empty. For a status other than 200 the error carries the status
  code, and with it the body when the body is a JSON object, as decoded. Otherwise the
  decoded, non-empty vector is returned.
\<close>

theorem GenerateEmbedding_error_iff:
  "((\<exists>err. fst (GenerateEmbedding s e w text) = Inl err) \<longleftrightarrow>
       (\<exists>err. post_embeddings e (embed_calls w) \<lparr>model = embeddingModel s, prompt = text\<rparr> = PostFailed err)
     \<or> (\<exists>resp. post_embeddings e (embed_calls w) \<lparr>model = embeddingModel s, prompt = text\<rparr> = Responded resp
           \<and> (StatusCode resp \<noteq> 200 \<or> (\<exists>err. result resp = Inl err) \<or> result resp = Inr [])))
   \<and> (\<forall>resp. post_embeddings e (embed_calls w) \<lparr>model = embeddingModel s, prompt = text\<rparr> = Responded resp
          \<and> StatusCode resp \<noteq> 200
        \<longrightarrow> (\<exists>r. fst (GenerateEmbedding s e w text) = Inl (StatusError (StatusCode resp) r))
          \<and> (\<forall>obj. raw resp = Some obj
                \<longrightarrow> fst (GenerateEmbedding s e w text) = Inl (StatusError (StatusCode resp) (Some obj))))
   \<and> (\<forall>resp emb. post_embeddings e (embed_calls w) \<lparr>model = embeddingModel s, prompt = text\<rparr> = Responded resp
          \<and> StatusCode resp = 200 \<and> result resp = Inr emb \<and> emb \<noteq> []
        \<longrightarrow> fst (GenerateEmbedding s e w text) = Inr emb)"
proof (cases "post_embeddings e (embed_calls w) \<lparr>model = embeddingModel s, prompt = text\<rparr>")
  case (PostFailed err)
  then show ?thesis
    by (simp add: GenerateEmbedding_def Marshal_def Let_def)
next
  case (Responded resp)
  show ?thesis
  proof (cases "StatusCode resp = 200")
    case False
    with Responded show ?thesis
      by (simp add: GenerateEmbedding_def Marshal_def Let_def StatusOK_def)
  next
    case True
    show ?thesis
    proof (cases "result resp")
      case (Inl err)
      with Responded True show ?thesis
        by (simp add: GenerateEmbedding_def Marshal_def Let_def StatusOK_def)
    next
      case (Inr emb)
      with Responded True show ?thesis
        by (cases "emb = []") (simp_all add: GenerateEmbedding_def Marshal_def Let_def StatusOK_def)
    qed
  qed
qed

theorem GenerateEmbedding_error_iff_witness:
  "post_embeddings flaky_env (embed_calls (empty_world\<lparr>embed_calls := 1\<rparr>))
       \<lparr>model = embeddingModel sky_service, prompt = sky_text\<rparr> = Responded server_error
   \<and> StatusCode server_error \<noteq> 200
   \<and> raw server_error = Some [(gostr ''error'', gostr ''model not found'')]
   \<and> fst (GenerateEmbedding sky_service flaky_env (empty_world\<lparr>embed_calls := 1\<rparr>) sky_text)
       = Inl (StatusError 500 (Some [(gostr ''error'', gostr ''model not found'')]))
   \<and> post_embeddings flaky_env (embed_calls empty_world)
       \<lparr>model = embeddingModel sky_service, prompt = sky_text\<rparr> = Responded ok_response
   \<and> fst (GenerateEmbedding sky_service flaky_env empty_world sky_text) = Inr [1, 0]"
proof -
  note failing = GenerateEmbedding_error_iff
    [of sky_service flaky_env "empty_world\<lparr>embed_calls := 1\<rparr>" sky_text]
  note passing = GenerateEmbedding_error_iff [of sky_service flaky_env empty_world sky_text]
  have p1: "post_embeddings flaky_env (embed_calls (empty_world\<lparr>embed_calls := 1\<rparr>))
       \<lparr>model = embeddingModel sky_service, prompt = sky_text\<rparr> = Responded server_error
     \<and> StatusCode server_error \<noteq> 200"
    by (simp add: flaky_env_def server_error_def)
  have obj: "raw server_error = Some [(gostr ''error'', gostr ''model not found'')]"
    by (simp add: server_error_def)
  have p0: "post_embeddings flaky_env (embed_calls empty_world)
       \<lparr>model = embeddingModel sky_service, prompt = sky_text\<rparr> = Responded ok_response
     \<and> StatusCode ok_response = 200 \<and> result ok_response = Inr [1, 0] \<and> [1, 0 :: real] \<noteq> []"
    by (simp add: flaky_env_def empty_world_def ok_response_def)
  from conjunct1 [OF conjunct2 [OF failing], THEN spec, THEN mp, OF p1]
  have "\<forall>obj. raw server_error = Some obj
      \<longrightarrow> fst (GenerateEmbedding sky_service flaky_env (empty_world\<lparr>embed_calls := 1\<rparr>) sky_text)
          = Inl (StatusError (StatusCode server_error) (Some obj))"
    by (rule conjunct2)
  from this [THEN spec, THEN mp, OF obj]
  have "fst (GenerateEmbedding sky_service flaky_env (empty_world\<lparr>embed_calls := 1\<rparr>) sky_text)
       = Inl (StatusError 500 (Some [(gostr ''error'', gostr ''model not found'')]))"
    by (simp add: server_error_def)
  moreover from conjunct2 [OF conjunct2 [OF passing], THEN spec, THEN spec, THEN mp, OF p0]
  have "fst (GenerateEmbedding sky_service flaky_env empty_world sky_text) = Inr [1, 0]" .
  ultimately show ?thesis using p1 p0 obj by blast
qed

lemma GenerateEmbedding_step:
  "GenerateEmbedding s e w text =
     (embed_result s e (embed_calls w) text, w\<lparr>embed_calls := Suc (embed_calls w)\<rparr>)"
  using GenerateEmbedding_result [of s e w "text"] GenerateEmbedding_world [of s e w "text"]
  by (simp add: prod_eq_iff)



lemma index_loop_ok:
  assumes "embed_result s e (embed_calls w) ch = Inr emb"
    and "exec_insert e (insert_calls w) \<lparr>Content = ch, Source = source, Embedding = emb\<rparr> = None"
  shows "index_loop s e source i (ch # rest) w =
           index_loop s e source (Suc i) rest
             (w\<lparr>embed_calls := Suc (embed_calls w), insert_calls := Suc (insert_calls w),
                documents := documents w @ [\<lparr>Content = ch, Source = source, Embedding = emb\<rparr>]\<rparr>)"
  using assms by (simp add: GenerateEmbedding_step InsertChunk_def Let_def)


lemma index_loop_prefix:
  assumes "\<forall>j<length pre.
             embed_result s e (embed_calls w + j) (pre ! j) = Inr (v j)
           \<and> exec_insert e (insert_calls w + j)
                \<lparr>Content = pre ! j, Source = source, Embedding = v j\<rparr> = None"
  shows "index_loop s e source i (pre @ rest) w =
           index_loop s e source (i + length pre) rest
             (w\<lparr>embed_calls := embed_calls w + length pre,
                insert_calls := insert_calls w + length pre,
                documents := documents w
                  @ map (\<lambda>j. \<lparr>Content = pre ! j, Source = source, Embedding = v j\<rparr>) [0..<length pre]\<rparr>)"
  using assms
proof (induction pre arbitrary: i w v)
  case Nil
  show ?case by simp
next
  case (Cons a pre)
  let ?w1 = "w\<lparr>embed_calls := Suc (embed_calls w), insert_calls := Suc (insert_calls w),
               documents := documents w @ [\<lparr>Content = a, Source = source, Embedding = v 0\<rparr>]\<rparr>"
  from Cons.prems have emb0: "embed_result s e (embed_calls w) a = Inr (v 0)"
    and ins0: "exec_insert e (insert_calls w) \<lparr>Content = a, Source = source, Embedding = v 0\<rparr> = None"
    by force+
  have rest_ok: "\<forall>j<length pre.
             embed_result s e (embed_calls ?w1 + j) (pre ! j) = Inr (v (Suc j))
           \<and> exec_insert e (insert_calls ?w1 + j)
                \<lparr>Content = pre ! j, Source = source, Embedding = v (Suc j)\<rparr> = None"
  proof (intro allI impI)
    fix j assume "j < length pre"
    then have "Suc j < length (a # pre)" by simp
    with Cons.prems have "embed_result s e (embed_calls w + Suc j) ((a # pre) ! Suc j) = Inr (v (Suc j))
           \<and> exec_insert e (insert_calls w + Suc j)
                \<lparr>Content = (a # pre) ! Suc j, Source = source, Embedding = v (Suc j)\<rparr> = None"
      by blast
    then show "embed_result s e (embed_calls ?w1 + j) (pre ! j) = Inr (v (Suc j))
           \<and> exec_insert e (insert_calls ?w1 + j)
                \<lparr>Content = pre ! j, Source = source, Embedding = v (Suc j)\<rparr> = None"
      by simp
  qed
  have rows: "map (\<lambda>j. \<lparr>Content = (a # pre) ! j, Source = source, Embedding = v j\<rparr>) [0..<Suc (length pre)]
      = \<lparr>Content = a, Source = source, Embedding = v 0\<rparr>
        # map (\<lambda>j. \<lparr>Content = pre ! j, Source = source, Embedding = v (Suc j)\<rparr>) [0..<length pre]"
    by (simp only: map_upt_shift nth_Cons_0 nth_Cons_Suc)
  have "index_loop s e source i ((a # pre) @ rest) w = index_loop s e source (Suc i) (pre @ rest) ?w1"
    using index_loop_ok [OF emb0 ins0] by simp
  also have "\<dots> = index_loop s e source (Suc i + length pre) rest
             (?w1\<lparr>embed_calls := embed_calls ?w1 + length pre,
                insert_calls := insert_calls ?w1 + length pre,
                documents := documents ?w1
                  @ map (\<lambda>j. \<lparr>Content = pre ! j, Source = source, Embedding = v (Suc j)\<rparr>) [0..<length pre]\<rparr>)"
    using rest_ok by (rule Cons.IH)
  also have "\<dots> = index_loop s e source (i + length (a # pre)) rest
             (w\<lparr>embed_calls := embed_calls w + length (a # pre),
                insert_calls := insert_calls w + length (a # pre),
                documents := documents w
                  @ map (\<lambda>j. \<lparr>Content = (a # pre) ! j, Source = source, Embedding = v j\<rparr>)
                      [0..<length (a # pre)]\<rparr>)"
    by (simp add: rows del: upt_Suc)
  finally show ?case .
qed






lemma index_loop_all:
  assumes "\<forall>j<length chunks.
             embed_result s e (embed_calls w + j) (chunks ! j) = Inr (v j)
           \<and> exec_insert e (insert_calls w + j)
                \<lparr>Content = chunks ! j, Source = source, Embedding = v j\<rparr> = None"
  shows "index_loop s e source 0 chunks w =
           (None, w\<lparr>embed_calls := embed_calls w + length chunks,
                   insert_calls := insert_calls w + length chunks,
                   documents := documents w
                     @ map (\<lambda>j. \<lparr>Content = chunks ! j, Source = source, Embedding = v j\<rparr>)
                         [0..<length chunks]\<rparr>)"
  using index_loop_prefix [OF assms, of 0 "[]"] by simp

section \<open>Upload: properties\<close>










text \<open>
  C10, as stated, fails: an upload with the text field \<open>hello\<close> and the file \<open>notes.txt\<close>
  holding a single space has a non-empty file content, yet the file is not indexed; the
  request is rejected with status 400.
\<close>

theorem upload_blank_file_counterexample:
  "FormFile blank_file_request (gostr ''file'') = Some \<lparr>Filename = gostr ''notes.txt'', ReadAll = Inr [32]\<rparr>
   \<and> FormValue blank_file_request (gostr ''text'') = gostr ''hello''
   \<and> NewUploadHandler record_index blank_file_request [] = Some (BadRequest NoTextNorFile, [])
   \<and> NewUploadHandler record_index blank_file_request []
       \<noteq> index_reply (record_index [32] (gostr ''notes.txt'') [])"
  by (simp add: NewUploadHandler_def upload_content_def blank_file_request_def Let_def
                HasSuffix_def ToLower_def gostr_def TrimSpace_def IsSpace_def
                index_reply_def record_index_def)

text \<open>
  C10, amended. For a POST upload whose form parses: a file part with a \<open>.txt\<close> name, read
  without error, whose content is not empty after trimming white space, is indexed with its
  file name as source, whatever the text field holds; when that content is non-empty but all
  white space the request is rejected with status 400 and nothing is indexed; a file part
  with another name or a read error is rejected with status 400; and the text field is
  indexed, with source \<open>user_text\<close>, when no file part is present or the file's content is
  empty, provided the text is not empty after trimming.
\<close>

theorem upload_file_precedence:
  assumes "Method r = gostr ''POST''" and "ParseMultipartForm r = None"
  shows "(\<forall>f content.
            FormFile r (gostr ''file'') = Some f
          \<and> HasSuffix (ToLower (Filename f)) (gostr ''.txt'')
          \<and> ReadAll f = Inr content \<and> TrimSpace content \<noteq> []
          \<longrightarrow> NewUploadHandler indexFn r w = index_reply (indexFn content (Filename f) w))
       \<and> (\<forall>f content.
            FormFile r (gostr ''file'') = Some f
          \<and> HasSuffix (ToLower (Filename f)) (gostr ''.txt'')
          \<and> ReadAll f = Inr content \<and> content \<noteq> [] \<and> TrimSpace content = []
          \<longrightarrow> NewUploadHandler indexFn r w = Some (BadRequest NoTextNorFile, w))
       \<and> (\<forall>f.
            FormFile r (gostr ''file'') = Some f
          \<and> (\<not> HasSuffix (ToLower (Filename f)) (gostr ''.txt'') \<or> (\<exists>err. ReadAll f = Inl err))
          \<longrightarrow> (\<exists>reply. NewUploadHandler indexFn r w = Some (BadRequest reply, w)))
       \<and> ((FormFile r (gostr ''file'') = None
            \<or> (\<exists>f. FormFile r (gostr ''file'') = Some f
                  \<and> HasSuffix (ToLower (Filename f)) (gostr ''.txt'') \<and> ReadAll f = Inr []))
          \<and> TrimSpace (FormValue r (gostr ''text'')) \<noteq> []
          \<longrightarrow> NewUploadHandler indexFn r w
                = index_reply (indexFn (FormValue r (gostr ''text'')) (gostr ''user_text'') w))"
proof (intro conjI allI impI)
  fix f content
  assume h: "FormFile r (gostr ''file'') = Some f
          \<and> HasSuffix (ToLower (Filename f)) (gostr ''.txt'')
          \<and> ReadAll f = Inr content \<and> TrimSpace content \<noteq> []"
  then have "content \<noteq> []" by (auto simp: TrimSpace_def)
  with h have "upload_content r = Inr (content, Filename f)"
    by (simp add: upload_content_def Let_def)
  with assms h show "NewUploadHandler indexFn r w = index_reply (indexFn content (Filename f) w)"
    by (simp add: NewUploadHandler_def)
next
  fix f content
  assume h: "FormFile r (gostr ''file'') = Some f
          \<and> HasSuffix (ToLower (Filename f)) (gostr ''.txt'')
          \<and> ReadAll f = Inr content \<and> content \<noteq> [] \<and> TrimSpace content = []"
  then have "upload_content r = Inr (content, Filename f)"
    by (simp add: upload_content_def Let_def)
  with assms h show "NewUploadHandler indexFn r w = Some (BadRequest NoTextNorFile, w)"
    by (simp add: NewUploadHandler_def)
next
  fix f
  assume h: "FormFile r (gostr ''file'') = Some f
          \<and> (\<not> HasSuffix (ToLower (Filename f)) (gostr ''.txt'') \<or> (\<exists>err. ReadAll f = Inl err))"
  then have "\<exists>reply. upload_content r = Inl reply"
    by (auto simp: upload_content_def Let_def)
  then obtain reply where "upload_content r = Inl reply" ..
  with assms have "NewUploadHandler indexFn r w = Some (BadRequest reply, w)"
    by (simp add: NewUploadHandler_def)
  then show "\<exists>reply. NewUploadHandler indexFn r w = Some (BadRequest reply, w)" ..
next
  assume h: "(FormFile r (gostr ''file'') = None
            \<or> (\<exists>f. FormFile r (gostr ''file'') = Some f
                  \<and> HasSuffix (ToLower (Filename f)) (gostr ''.txt'') \<and> ReadAll f = Inr []))
          \<and> TrimSpace (FormValue r (gostr ''text'')) \<noteq> []"
  then have "upload_content r = Inr (FormValue r (gostr ''text''), gostr ''user_text'')"
    by (auto simp: upload_content_def Let_def)
  with assms h show "NewUploadHandler indexFn r w
                = index_reply (indexFn (FormValue r (gostr ''text'')) (gostr ''user_text'') w)"
    by (simp add: NewUploadHandler_def)
qed


theorem upload_file_precedence_witness:
  "Method file_and_text_request = gostr ''POST''
   \<and> ParseMultipartForm file_and_text_request = None
   \<and> FormFile file_and_text_request (gostr ''file'')
       = Some \<lparr>Filename = gostr ''Notes.TXT'', ReadAll = Inr (gostr ''from the file'')\<rparr>
   \<and> FormValue file_and_text_request (gostr ''text'') = gostr ''hello''
   \<and> HasSuffix (ToLower (gostr ''Notes.TXT'')) (gostr ''.txt'')
   \<and> TrimSpace (gostr ''from the file'') \<noteq> []
   \<and> NewUploadHandler record_index file_and_text_request []
       = Some (OkJSON, [(gostr ''from the file'', gostr ''Notes.TXT'')])"
proof -
  let ?f = "\<lparr>Filename = gostr ''Notes.TXT'', ReadAll = Inr (gostr ''from the file'')\<rparr>"
  have h1: "Method file_and_text_request = gostr ''POST''"
    by (simp add: file_and_text_request_def)
  have h2: "ParseMultipartForm file_and_text_request = None"
    by (simp add: file_and_text_request_def)
  have part: "FormFile file_and_text_request (gostr ''file'') = Some ?f"
    by (simp add: file_and_text_request_def)
  have field: "FormValue file_and_text_request (gostr ''text'') = gostr ''hello''"
    by (simp add: file_and_text_request_def)
  have suffix: "HasSuffix (ToLower (gostr ''Notes.TXT'')) (gostr ''.txt'')"
    by (simp add: HasSuffix_def ToLower_def gostr_def)
  have body: "TrimSpace (gostr ''from the file'') \<noteq> []"
    by (simp add: TrimSpace_def IsSpace_def gostr_def)
  have h3: "FormFile file_and_text_request (gostr ''file'') = Some ?f
          \<and> HasSuffix (ToLower (Filename ?f)) (gostr ''.txt'')
          \<and> ReadAll ?f = Inr (gostr ''from the file'') \<and> TrimSpace (gostr ''from the file'') \<noteq> []"
    using part suffix body by simp
  note t = upload_file_precedence [OF h1 h2, of record_index "[]"]
  from conjunct1 [OF t, THEN spec, THEN spec, THEN mp, OF h3]
  have "NewUploadHandler record_index file_and_text_request []
      = index_reply (record_index (gostr ''from the file'') (Filename ?f) [])" .
  then have "NewUploadHandler record_index file_and_text_request []
       = Some (OkJSON, [(gostr ''from the file'', gostr ''Notes.TXT'')])"
    by (simp add: index_reply_def record_index_def)
  with h1 h2 part field suffix body show ?thesis by blast
qed

section \<open>Query: properties\<close>

lemma escape_append:
  "ReplaceAll (a @ b) old new = ReplaceAll a old new @ ReplaceAll b old new"
  by (simp add: ReplaceAll_def)

lemma escape_id: "old \<notin> set s \<Longrightarrow> ReplaceAll s old new = s"
  by (induction s) (simp_all add: ReplaceAll_def)

lemma stream_loop_tokens:
  "tokens (stream_loop items) =
     map (\<lambda>t. ReplaceAll t 10 [92, 110])
       (filter (\<lambda>t. t \<noteq> []) (map Response (up_to_done (increments items))))"
proof (induction items rule: stream_loop.induct)
  case 1
  show ?case by (simp add: up_to_done_def)
next
  case (2 err rest)
  show ?case by (simp add: up_to_done_def)
next
  case (3 c rest)
  show ?case
  proof (cases "Done c")
    case True
    then show ?thesis by (simp add: up_to_done_def)
  next
    case False
    have cons: "up_to_done (c # increments rest) = c # up_to_done (increments rest)"
      using False by (simp add: up_to_done_def)
    have "tokens (stream_loop (Decoded c # rest)) =
        (if Response c \<noteq> [] then [ReplaceAll (Response c) 10 [92, 110]] else [])
        @ tokens (stream_loop rest)"
      using False by simp
    also have "tokens (stream_loop rest) = map (\<lambda>t. ReplaceAll t 10 [92, 110])
       (filter (\<lambda>t. t \<noteq> []) (map Response (up_to_done (increments rest))))"
      using False by (rule "3.IH")
    finally show ?thesis by (simp add: cons)
  qed
qed

lemma concat_filter_nonempty: "concat (filter (\<lambda>t. t \<noteq> []) xs) = concat xs"
  by (induction xs) simp_all

lemma concat_map_escape:
  "concat (map (\<lambda>t. ReplaceAll t old new) xs) = ReplaceAll (concat xs) old new"
  by (induction xs) (simp_all add: escape_append, simp add: ReplaceAll_def)


text \<open>
  C5, as stated, fails: for a single increment with the text \<open>a\<close>, newline, \<open>b\<close> and the
  completion flag, the forwarded token is \<open>a\nb\<close> with a backslash and the letter \<open>n\<close>
  in place of the newline, so the concatenation of the forwarded tokens is not the
  generated text.
\<close>

theorem stream_newline_counterexample:
  "generated_text newline_stream = [97, 10, 98]
   \<and> concat (tokens (stream_loop newline_stream)) = [97, 92, 110, 98]
   \<and> concat (tokens (stream_loop newline_stream)) \<noteq> generated_text newline_stream"
  by (simp add: newline_stream_def generated_text_def up_to_done_def ReplaceAll_def)

text \<open>
  C5, amended. The handler forwards, in order, the non-empty partial texts of the increments
  up to and including the first one whose completion flag is set (or up to a decoding error
  or the end of the body), each with every newline replaced by a backslash and the letter
  \<open>n\<close>; the concatenation of the forwarded tokens is the generated text with its newlines
  so replaced, and is the generated text itself when that holds no newline.
\<close>

theorem stream_forwarding:
  "tokens (stream_loop items) =
     map (\<lambda>t. ReplaceAll t 10 [92, 110])
       (filter (\<lambda>t. t \<noteq> []) (map Response (up_to_done (increments items))))
   \<and> concat (tokens (stream_loop items)) = ReplaceAll (generated_text items) 10 [92, 110]
   \<and> (10 \<notin> set (generated_text items)
        \<longrightarrow> concat (tokens (stream_loop items)) = generated_text items)"
proof -
  have escaped: "concat (tokens (stream_loop items)) = ReplaceAll (generated_text items) 10 [92, 110]"
    unfolding stream_loop_tokens generated_text_def
    by (simp only: concat_map_escape concat_filter_nonempty)
  moreover have "10 \<notin> set (generated_text items)
        \<longrightarrow> concat (tokens (stream_loop items)) = generated_text items"
    using escaped by (simp add: escape_id)
  ultimately show ?thesis using stream_loop_tokens [of items] by blast
qed

theorem stream_forwarding_witness:
  "10 \<notin> set (generated_text go_stream)
   \<and> tokens (stream_loop go_stream) = [gostr ''Go'', gostr '' was'', gostr '' created'']
   \<and> concat (tokens (stream_loop go_stream)) = gostr ''Go was created''"
proof -
  have full: "generated_text go_stream = gostr ''Go was created''"
    by (simp add: generated_text_def go_stream_def up_to_done_def gostr_def)
  then have clean: "10 \<notin> set (generated_text go_stream)"
    by (simp add: gostr_def)
  note t = stream_forwarding [of go_stream]
  from conjunct2 [OF conjunct2 [OF t], THEN mp, OF clean] full
  have "concat (tokens (stream_loop go_stream)) = gostr ''Go was created''"
    by simp
  moreover have "tokens (stream_loop go_stream) = [gostr ''Go'', gostr '' was'', gostr '' created'']"
    by (simp add: go_stream_def ReplaceAll_def gostr_def)
  ultimately show ?thesis using clean by blast
qed


lemma stream_loop_Decoded:
  "stream_loop (Decoded c # rest) =
     (if Response c \<noteq> [] then [Data (ReplaceAll (Response c) 10 [92, 110])] else [])
     @ (if Done c then [DoneEvent] else stream_loop rest)"
  by simp

lemma stream_loop_inner:
  "\<forall>ev\<in>set (butlast (stream_loop items)). \<not> is_terminal ev"
proof (induction items rule: stream_loop.induct)
  case 1
  show ?case by simp
next
  case (2 err rest)
  show ?case by simp
next
  case (3 c rest)
  show ?case
  proof (cases "Done c")
    case True
    then show ?thesis by (simp add: butlast_append)
  next
    case False
    then have "\<forall>ev\<in>set (butlast (stream_loop rest)). \<not> is_terminal ev"
      by (rule "3.IH")
    with False show ?thesis by (simp add: butlast_append)
  qed
qed

lemma stream_loop_terminal_iff:
  "ends_in_terminal (stream_loop items) \<longleftrightarrow> list_ex stops items"
proof (induction items rule: stream_loop.induct)
  case 1
  show ?case by (simp add: ends_in_terminal_def)
next
  case (2 err rest)
  show ?case by (simp add: ends_in_terminal_def)
next
  case (3 c rest)
  show ?case
  proof (cases "Done c")
    case True
    then show ?thesis by (simp add: ends_in_terminal_def)
  next
    case False
    then have IH: "ends_in_terminal (stream_loop rest) \<longleftrightarrow> list_ex stops rest"
      by (rule "3.IH")
    have "ends_in_terminal (stream_loop (Decoded c # rest)) \<longleftrightarrow> ends_in_terminal (stream_loop rest)"
      using False by (cases "stream_loop rest = []") (simp_all add: ends_in_terminal_def)
    with IH False show ?thesis by simp
  qed
qed

lemma stream_loop_last:
  "(\<forall>c rest. dropWhile (\<lambda>d. \<not> stops d) items = Decoded c # rest
        \<longrightarrow> last (stream_loop items) = DoneEvent)
   \<and> (\<forall>err rest. dropWhile (\<lambda>d. \<not> stops d) items = DecodeError err # rest
        \<longrightarrow> last (stream_loop items) = ErrorEvent (ReplaceAll err 10 [32]))"
proof (induction items rule: stream_loop.induct)
  case 1
  show ?case by simp
next
  case (2 err rest)
  show ?case by simp
next
  case (3 c rest)
  show ?case
  proof (cases "Done c")
    case True
    then show ?thesis by simp
  next
    case False
    then have IH: "(\<forall>c rest'. dropWhile (\<lambda>d. \<not> stops d) rest = Decoded c # rest'
        \<longrightarrow> last (stream_loop rest) = DoneEvent)
      \<and> (\<forall>err rest'. dropWhile (\<lambda>d. \<not> stops d) rest = DecodeError err # rest'
        \<longrightarrow> last (stream_loop rest) = ErrorEvent (ReplaceAll err 10 [32]))"
      by (rule "3.IH")
    have drop: "dropWhile (\<lambda>d. \<not> stops d) (Decoded c # rest) = dropWhile (\<lambda>d. \<not> stops d) rest"
      using False by simp
    have nonempty: "stream_loop rest \<noteq> []" if "dropWhile (\<lambda>d. \<not> stops d) rest \<noteq> []"
    proof -
      from that have "list_ex stops rest"
        by (auto simp: list_ex_iff dropWhile_eq_Nil_conv)
      then have "ends_in_terminal (stream_loop rest)"
        by (simp only: stream_loop_terminal_iff)
      then show ?thesis by (simp add: ends_in_terminal_def)
    qed
    have last_eq: "last (stream_loop (Decoded c # rest)) = last (stream_loop rest)"
      if "dropWhile (\<lambda>d. \<not> stops d) rest \<noteq> []"
      using False nonempty [OF that] by simp
    show ?thesis
    proof (intro conjI allI impI)
      fix c' rest'
      assume "dropWhile (\<lambda>d. \<not> stops d) (Decoded c # rest) = Decoded c' # rest'"
      then have d: "dropWhile (\<lambda>d. \<not> stops d) rest = Decoded c' # rest'"
        by (simp only: drop)
      then have l: "last (stream_loop rest) = DoneEvent" using IH by blast
      from d have ne: "dropWhile (\<lambda>d. \<not> stops d) rest \<noteq> []" by simp
      show "last (stream_loop (Decoded c # rest)) = DoneEvent"
        by (rule trans [OF last_eq [OF ne] l])
    next
      fix err rest'
      assume "dropWhile (\<lambda>d. \<not> stops d) (Decoded c # rest) = DecodeError err # rest'"
      then have d: "dropWhile (\<lambda>d. \<not> stops d) rest = DecodeError err # rest'"
        by (simp only: drop)
      then have l: "last (stream_loop rest) = ErrorEvent (ReplaceAll err 10 [32])" using IH by blast
      from d have ne: "dropWhile (\<lambda>d. \<not> stops d) rest \<noteq> []" by simp
      show "last (stream_loop (Decoded c # rest)) = ErrorEvent (ReplaceAll err 10 [32])"
        by (rule trans [OF last_eq [OF ne] l])
    qed
  qed
qed

text \<open>
  C6, as stated, fails: when the body ends after the increment \<open>Go\<close> without a completion
  increment, the only event is the data event; and for an empty body there is no event at
  all.
\<close>

theorem stream_open_counterexample:
  "stream_loop open_stream = [Data (gostr ''Go'')]
   \<and> \<not> ends_in_terminal (stream_loop open_stream)
   \<and> stream_loop [] = [] \<and> \<not> ends_in_terminal (stream_loop [])"
  by (simp add: open_stream_def ends_in_terminal_def ReplaceAll_def gostr_def)

text \<open>
  C6, amended. The events end in a terminal event exactly when the body holds an increment
  with the completion flag set or a malformed increment; the terminal event is \<open>done\<close>
  when the first of these is a completion increment and \<open>error\<close> when it is a malformed
  one; no event before the last is terminal; and when the body ends with neither, no event
  is terminal.
\<close>

theorem stream_terminal:
  "(ends_in_terminal (stream_loop items) \<longleftrightarrow> list_ex stops items)
   \<and> (\<forall>ev\<in>set (butlast (stream_loop items)). \<not> is_terminal ev)
   \<and> (\<not> list_ex stops items \<longrightarrow> (\<forall>ev\<in>set (stream_loop items). \<not> is_terminal ev))
   \<and> (\<forall>c rest. dropWhile (\<lambda>d. \<not> stops d) items = Decoded c # rest
        \<longrightarrow> last (stream_loop items) = DoneEvent)
   \<and> (\<forall>err rest. dropWhile (\<lambda>d. \<not> stops d) items = DecodeError err # rest
        \<longrightarrow> last (stream_loop items) = ErrorEvent (ReplaceAll err 10 [32]))"
proof -
  have none: "\<not> list_ex stops items \<longrightarrow> (\<forall>ev\<in>set (stream_loop items). \<not> is_terminal ev)"
  proof (intro impI ballI)
    fix ev
    assume quiet: "\<not> list_ex stops items" and ev: "ev \<in> set (stream_loop items)"
    from quiet have open_end: "\<not> ends_in_terminal (stream_loop items)"
      using stream_loop_terminal_iff [of items] by blast
    from ev have ne: "stream_loop items \<noteq> []" by auto
    then have "stream_loop items = butlast (stream_loop items) @ [last (stream_loop items)]"
      by simp
    with ev have "ev \<in> set (butlast (stream_loop items)) \<or> ev = last (stream_loop items)"
      by (metis Un_iff empty_iff empty_set insert_iff list.simps(15) set_append)
    moreover from open_end ne have "\<not> is_terminal (last (stream_loop items))"
      by (simp add: ends_in_terminal_def)
    ultimately show "\<not> is_terminal ev"
      using stream_loop_inner [of items] by blast
  qed
  from stream_loop_terminal_iff [of items] stream_loop_inner [of items] none
    conjunct1 [OF stream_loop_last [of items]] conjunct2 [OF stream_loop_last [of items]]
  show ?thesis by (intro conjI)
qed


theorem stream_terminal_witness:
  "\<not> list_ex stops open_stream
   \<and> Data (gostr ''Go'') \<in> set (stream_loop open_stream)
   \<and> \<not> is_terminal (Data (gostr ''Go''))
   \<and> dropWhile (\<lambda>d. \<not> stops d) go_stream = [Decoded \<lparr>Response = [], Done = True\<rparr>]
   \<and> last (stream_loop go_stream) = DoneEvent
   \<and> dropWhile (\<lambda>d. \<not> stops d) broken_stream = [DecodeError [98, 97, 100, 10, 120]]
   \<and> last (stream_loop broken_stream) = ErrorEvent [98, 97, 100, 32, 120]
   \<and> Data (gostr ''Go'') \<in> set (butlast (stream_loop broken_stream))"
proof -
  have quiet: "\<not> list_ex stops open_stream"
    by (simp add: open_stream_def)
  have ev: "Data (gostr ''Go'') \<in> set (stream_loop open_stream)"
    by (simp add: open_stream_def ReplaceAll_def gostr_def)
  note open_case = stream_terminal [of open_stream]
  from conjunct1 [OF conjunct2 [OF conjunct2 [OF open_case]], THEN mp, OF quiet, THEN bspec, OF ev]
  have plain: "\<not> is_terminal (Data (gostr ''Go''))" .
  have go: "dropWhile (\<lambda>d. \<not> stops d) go_stream = [Decoded \<lparr>Response = [], Done = True\<rparr>]"
    by (simp add: go_stream_def)
  note go_case = stream_terminal [of go_stream]
  from conjunct1 [OF conjunct2 [OF conjunct2 [OF conjunct2 [OF go_case]]], THEN spec, THEN spec, THEN mp, OF go]
  have finished: "last (stream_loop go_stream) = DoneEvent" .
  have broken: "dropWhile (\<lambda>d. \<not> stops d) broken_stream = [DecodeError [98, 97, 100, 10, 120]]"
    by (simp add: broken_stream_def)
  note broken_case = stream_terminal [of broken_stream]
  from conjunct2 [OF conjunct2 [OF conjunct2 [OF conjunct2 [OF broken_case]]], THEN spec, THEN spec, THEN mp, OF broken]
  have "last (stream_loop broken_stream) = ErrorEvent (ReplaceAll [98, 97, 100, 10, 120] 10 [32])" .
  then have failed: "last (stream_loop broken_stream) = ErrorEvent [98, 97, 100, 32, 120]"
    by (simp add: ReplaceAll_def)
  have inner: "Data (gostr ''Go'') \<in> set (butlast (stream_loop broken_stream))"
    by (simp add: broken_stream_def ReplaceAll_def gostr_def)
  from quiet ev plain go finished broken failed inner show ?thesis by (intro conjI)
qed

lemma NewQueryHandler_stream:
  assumes "NewQueryHandler searchFn llm post_generate flusher r w = (EventStream evs, w')"
  shows "\<exists>req items. post_generate req = Body items \<and> evs = stream_loop items"
  using assms
  by (auto simp: NewQueryHandler_def Let_def
           split: if_splits prod.splits sum.splits generate_outcome.splits)

lemma NewQueryHandler_topK:
  assumes "Method r = gostr ''GET''" and "TrimSpace (Get (Query r) (gostr ''q'')) \<noteq> []"
  shows "snd (NewQueryHandler record_search llm post_generate flusher r calls) = calls @ [50]"
  using assms
  by (simp add: NewQueryHandler_def Let_def record_search_def split: generate_outcome.split)

text \<open>
  C4 fails on the code: for the query \<open>q=who made Go&k=3\<close> the handler calls \<open>searchFn\<close>
  with \<open>topK = 50\<close>. The handler never reads the parameter \<open>k\<close>, which its own comment
  announces.
\<close>

theorem query_ignores_k:
  "Get (Query k_request) (gostr ''k'') = gostr ''3''
   \<and> snd (NewQueryHandler record_search (gostr ''llama3.2'') (\<lambda>req. Body go_stream) True k_request []) = [50]"
  by (simp add: NewQueryHandler_def Let_def record_search_def k_request_def Get_def gostr_def
                TrimSpace_def IsSpace_def)

end
